theory Spec2Isabelle
  imports Main "HOL-Library.AList"
begin

section \<open>Python strings\<close>

text \<open>
  A Python \<open>str\<close> is a sequence of Unicode code points; \<open>len\<close>, slicing and the
  \<open>re\<close> module all count code points. A string is therefore a list of code points,
  and \<open>py\<close> embeds an ASCII literal of the source.
\<close>

type_synonym pystr = "int list"

definition py :: "string \<Rightarrow> pystr" where
  "py s = map of_char s"

text \<open>
  \<open>str.isspace\<close> for one code point. \<open>str.strip()\<close>, \<open>str.split()\<close> and the
  class \<open>\s\<close> of \<open>re\<close> on a \<open>str\<close> pattern all use this table of CPython.
\<close>

definition isspace :: "int \<Rightarrow> bool" where
  "isspace c = (c \<in> set [9, 10, 11, 12, 13, 28, 29, 30, 31, 32, 133, 160, 5760,
     8192, 8193, 8194, 8195, 8196, 8197, 8198, 8199, 8200, 8201, 8202,
     8232, 8233, 8239, 8287, 12288])"

text \<open>
  The class \<open>\d\<close> of \<open>re\<close> on a \<open>str\<close> pattern: the decimal digits of Unicode
  (category Nd, here as of Unicode 14), which come in runs of ten starting at the code
  points below; 48 is ASCII \<open>0\<close>.
\<close>

definition decimal_zeros :: "int list" where
  "decimal_zeros = [48, 1632, 1776, 1984, 2406, 2534, 2662, 2790, 2918, 3046, 3174,
     3302, 3430, 3558, 3664, 3792, 3872, 4160, 4240, 6112, 6160, 6470, 6608, 6784,
     6800, 6992, 7088, 7232, 7248, 42528, 43216, 43264, 43472, 43504, 43600, 44016,
     65296, 66720, 68912, 69734, 69872, 69942, 70096, 70384, 70736, 70864, 71248,
     71360, 71472, 71904, 72016, 72784, 73040, 73120, 92768, 92864, 93008, 120782,
     120792, 120802, 120812, 120822, 123200, 123632, 125264, 130032]"

definition isdecimal :: "int \<Rightarrow> bool" where
  "isdecimal c = list_ex (\<lambda>z. z \<le> c \<and> c < z + 10) decimal_zeros"

text \<open>\<open>sep.join(xs)\<close>\<close>

fun py_join :: "pystr \<Rightarrow> pystr list \<Rightarrow> pystr" where
  "py_join sep [] = []"
| "py_join sep [x] = x"
| "py_join sep (x # y # ys) = x @ sep @ py_join sep (y # ys)"

text \<open>\<open>s.strip()\<close>: leading and trailing whitespace removed.\<close>

definition py_strip :: "pystr \<Rightarrow> pystr" where
  "py_strip s = rev (dropWhile isspace (rev (dropWhile isspace s)))"

text \<open>
  \<open>s.split()\<close> without arguments: the maximal runs of non-whitespace, in order. The
  first argument is the run being read.
\<close>

fun split_from :: "pystr \<Rightarrow> pystr \<Rightarrow> pystr list" where
  "split_from cur [] = (if cur = [] then [] else [cur])"
| "split_from cur (c # s) =
     (if isspace c then (if cur = [] then split_from [] s else cur # split_from [] s)
      else split_from (cur @ [c]) s)"

definition py_split :: "pystr \<Rightarrow> pystr list" where
  "py_split s = split_from [] s"

section \<open>The section splitter\<close>

text \<open>
  The pattern of the source is
  \<^verbatim>\<open>\n(?=\d+\.\s|Chapter\s+\d+|Section\s+\d+)\<close>:
  a newline, then a lookahead with three alternatives. Each alternative is a sequence of
  items, an item being one character (a literal or a class) or a class repeated once or more.
\<close>

datatype atom = Lit int | Digit | Space

datatype item = One atom | Plus atom

fun atom_matches :: "atom \<Rightarrow> int \<Rightarrow> bool" where
  "atom_matches (Lit a) c = (c = a)"
| "atom_matches Digit c = isdecimal c"
| "atom_matches Space c = isspace c"

text \<open>
  Whether a sequence of items matches at the start of \<open>s\<close>. A repeated class first
  tries to take one more character and then gives back, as the backtracking matcher does.
\<close>

fun match_here :: "item list \<Rightarrow> pystr \<Rightarrow> bool" where
  "match_here [] s = True"
| "match_here (One a # r) [] = False"
| "match_here (One a # r) (c # s) = (atom_matches a c \<and> match_here r s)"
| "match_here (Plus a # r) [] = False"
| "match_here (Plus a # r) (c # s) =
     (atom_matches a c \<and> (match_here (Plus a # r) s \<or> match_here r s))"

definition literal :: "string \<Rightarrow> item list" where
  "literal w = map (\<lambda>ch. One (Lit (of_char ch))) w"

definition heading_alternatives :: "item list list" where
  "heading_alternatives =
     [[Plus Digit, One (Lit 46), One Space],
      literal ''Chapter'' @ [Plus Space, Plus Digit],
      literal ''Section'' @ [Plus Space, Plus Digit]]"

definition heading_ahead :: "pystr \<Rightarrow> bool" where
  "heading_ahead s = list_ex (\<lambda>alt. match_here alt s) heading_alternatives"

text \<open>
  \<open>re.split(pattern, text)\<close>: a match is one newline (code point 10) with a heading
  ahead; the text is cut at every match and the matched newline is dropped. The first
  argument is the piece being read.
\<close>

fun re_split_from :: "pystr \<Rightarrow> pystr \<Rightarrow> pystr list" where
  "re_split_from cur [] = [cur]"
| "re_split_from cur (c # s) =
     (if c = 10 \<and> heading_ahead s then cur # re_split_from [] s
      else re_split_from (cur @ [c]) s)"

definition re_split :: "pystr \<Rightarrow> pystr list" where
  "re_split text = re_split_from [] text"

section \<open>Floating point\<close>

text \<open>
  The source computes \<open>int(word_count * 0.5)\<close> and \<open>int(max_len * 0.6)\<close> in binary64
  floating point. All values involved are non-negative, far from overflow and from the
  subnormal range (a word count is at most the length of a string, below \<open>2^63\<close>), so
  a float is modelled as a mantissa and an exponent, \<open>Fl m e\<close> standing for
  \<open>m * 2^e\<close>, and every operation rounds its exact result to 53 significant bits, ties
  to even.
\<close>

datatype pyfloat = Fl int int

fun bit_length :: "int \<Rightarrow> nat" where
  "bit_length n = (if n \<le> 0 then 0 else Suc (bit_length (n div 2)))"

declare bit_length.simps [simp del]

text \<open>\<open>n / 2^k\<close> rounded to the nearest integer, ties to even.\<close>

definition round_half_even :: "int \<Rightarrow> nat \<Rightarrow> int" where
  "round_half_even n k =
     (let q = n div 2 ^ k; r = n mod 2 ^ k
      in if 2 * r < 2 ^ k then q
         else if 2 ^ k < 2 * r then q + 1
         else if even q then q else q + 1)"

definition fl_round :: "int \<Rightarrow> int \<Rightarrow> pyfloat" where
  "fl_round m e = (let k = bit_length m - 53 in Fl (round_half_even m k) (e + int k))"

text \<open>\<open>float(n)\<close>, the conversion that \<open>n * 0.5\<close> applies to its integer operand.\<close>

definition float_of_int :: "int \<Rightarrow> pyfloat" where
  "float_of_int n = fl_round n 0"

fun fl_mul :: "pyfloat \<Rightarrow> pyfloat \<Rightarrow> pyfloat" where
  "fl_mul (Fl m e) (Fl m' e') = fl_round (m * m') (e + e')"

text \<open>\<open>int(x)\<close> truncates; on a non-negative float that is the floor.\<close>

fun int_of_float :: "pyfloat \<Rightarrow> int" where
  "int_of_float (Fl m e) = (if 0 \<le> e then m * 2 ^ nat e else m div 2 ^ nat (- e))"

text \<open>
  The literals: \<open>0.5\<close> is exact; \<open>0.6\<close> is the binary64 number
  \<open>0x1.3333333333333p-1 = 5404319552844595 / 2^53\<close>, a little below six tenths.
\<close>

definition half :: pyfloat where
  "half = Fl 1 (- 1)"

definition six_tenths :: pyfloat where
  "six_tenths = Fl 5404319552844595 (- 53)"

section \<open>The adaptive summarizer\<close>

text \<open>
  The summarization pipeline is an external capability. One call passes the text and the
  keyword arguments \<open>max_length\<close>, \<open>min_length\<close> and \<open>do_sample\<close>; its outcome is
  either the string \<open>summary[0]['summary_text']\<close> (\<open>Inr\<close>) or an exception, of which
  the source keeps \<open>str(e)\<close> (\<open>Inl\<close>). The capability is opaque: its outcome may depend
  on the calls made before, so it receives them as well.
\<close>

record call =
  call_text :: pystr
  max_length :: int
  min_length :: int
  do_sample :: bool

type_synonym capability = "call list \<Rightarrow> call \<Rightarrow> pystr + pystr"

text \<open>\<open>str(n)\<close> of a non-negative integer, and the label \<open>f"Section {i+1}"\<close>.\<close>

fun decimal :: "nat \<Rightarrow> pystr" where
  "decimal n = (if n < 10 then [48 + int n] else decimal (n div 10) @ [48 + int (n mod 10)])"

declare decimal.simps [simp del]

definition label :: "nat \<Rightarrow> pystr" where
  "label i = py ''Section '' @ decimal (i + 1)"

text \<open>The local variables of one iteration, line by line.\<close>

definition word_count_of :: "pystr \<Rightarrow> int" where
  "word_count_of sec = int (length (py_split sec))"

definition short_text_of :: "pystr \<Rightarrow> pystr" where
  "short_text_of sec = take 1000 sec"

definition max_len_of :: "int \<Rightarrow> int" where
  "max_len_of word_count =
     min 150 (max 13 (int_of_float (fl_mul (float_of_int word_count) half)))"

definition min_len_of :: "int \<Rightarrow> int" where
  "min_len_of max_len = max 10 (int_of_float (fl_mul (float_of_int max_len) six_tenths))"

definition adjusted_max_of :: "int \<Rightarrow> pystr \<Rightarrow> int" where
  "adjusted_max_of max_len short_text = min max_len (int (length (py_split short_text)))"

definition adjusted_min_of :: "int \<Rightarrow> int \<Rightarrow> int" where
  "adjusted_min_of min_len adjusted_max =
     (if adjusted_max > 1 then min min_len (adjusted_max - 1) else 1)"

text \<open>The call that an iteration makes for the stripped section \<open>sec\<close>.\<close>

definition summarizer_call :: "pystr \<Rightarrow> call" where
  "summarizer_call sec =
     (let word_count = word_count_of sec;
          short_text = short_text_of sec;
          max_len = max_len_of word_count;
          min_len = min_len_of max_len;
          adjusted_max = adjusted_max_of max_len short_text;
          adjusted_min = adjusted_min_of min_len adjusted_max
      in \<lparr>call_text = short_text, max_length = adjusted_max, min_length = adjusted_min,
          do_sample = False\<rparr>)"

text \<open>
  The state of the loop: the dictionary \<open>summaries\<close>, which keeps insertion order (an
  assignment to a key that exists replaces the value in place, a new key goes to the
  end), and the calls made to the capability so far.
\<close>

record run =
  summaries :: "(pystr \<times> pystr) list"
  calls :: "call list"

definition skip_message :: pystr where
  "skip_message = py ''Section too short to summarize.''"

definition loop_body :: "capability \<Rightarrow> run \<Rightarrow> nat \<times> pystr \<Rightarrow> run" where
  "loop_body summarizer st p =
     (let i = fst p;
          sec = py_strip (snd p);
          word_count = word_count_of sec
      in if word_count > 20 then
           (let c = summarizer_call sec
            in case summarizer (calls st) c of
                 Inr summary_text \<Rightarrow>
                   st\<lparr>summaries := AList.update (label i) summary_text (summaries st),
                      calls := calls st @ [c]\<rparr>
               | Inl e \<Rightarrow>
                   st\<lparr>summaries := AList.update (label i) (py ''Error: '' @ e) (summaries st),
                      calls := calls st @ [c]\<rparr>)
         else st\<lparr>summaries := AList.update (label i) skip_message (summaries st)\<rparr>)"

definition run_sections :: "capability \<Rightarrow> run \<Rightarrow> (nat \<times> pystr) list \<Rightarrow> run" where
  "run_sections summarizer st ps = foldl (loop_body summarizer) st ps"

definition summarize_by_sections :: "capability \<Rightarrow> pystr \<Rightarrow> run" where
  "summarize_by_sections summarizer text =
     run_sections summarizer \<lparr>summaries = [], calls = []\<rparr> (enumerate 0 (re_split text))"

text \<open>\<open>st.session_state['summary'] = " ".join(section_summaries.values())\<close>\<close>

definition session_context :: "(pystr \<times> pystr) list \<Rightarrow> pystr" where
  "session_context section_summaries = py_join (py '' '') (map snd section_summaries)"

section \<open>The transcript adapter\<close>

text \<open>\<open>needle in s\<close> on strings.\<close>

fun contains :: "pystr \<Rightarrow> pystr \<Rightarrow> bool" where
  "contains needle [] = (needle = [])"
| "contains needle (c # s) = (take (length needle) (c # s) = needle \<or> contains needle s)"

text \<open>
  \<open>s.split(sep)\<close> with a separator: the pieces between the occurrences of \<open>sep\<close>, found
  from left to right. The separators of the source are non-empty literals.
\<close>

function split_on :: "pystr \<Rightarrow> pystr \<Rightarrow> pystr \<Rightarrow> pystr list" where
  "split_on sep cur [] = [cur]"
| "split_on sep cur (c # s) =
     (if sep \<noteq> [] \<and> take (length sep) (c # s) = sep
      then cur # split_on sep [] (drop (length sep) (c # s))
      else split_on sep (cur @ [c]) s)"
  by pat_completeness auto
termination
  by (relation "measure (\<lambda>(sep, cur, s). length s)") auto

definition py_split_sep :: "pystr \<Rightarrow> pystr \<Rightarrow> pystr list" where
  "py_split_sep s sep = split_on sep [] s"

text \<open>
  A transcript is a list of fragments with their timing; the fetch either returns one or
  raises, and the source keeps \<open>str(e)\<close>.
\<close>

record 't fragment =
  fragment_text :: pystr
  start :: 't
  duration :: 't

definition video_id_of :: "pystr \<Rightarrow> pystr" where
  "video_id_of url =
     (if contains (py ''youtube.com'') url then last (py_split_sep url (py ''v=''))
      else last (py_split_sep url (py ''/'')))"

definition get_youtube_transcript ::
  "(pystr \<Rightarrow> pystr + 't fragment list) \<Rightarrow> pystr \<Rightarrow> pystr" where
  "get_youtube_transcript get_transcript url =
     (let video_id = video_id_of url
      in case get_transcript video_id of
           Inr transcript \<Rightarrow> py_join (py '' '') (map fragment_text transcript)
         | Inl e \<Rightarrow> py ''Error retrieving transcript: '' @ e)"

section \<open>Notions used to state the properties\<close>

text \<open>
  The positions of the matches of the pattern in \<open>T\<close>: the newlines with a heading
  ahead.
\<close>

definition heading_matches :: "pystr \<Rightarrow> nat list" where
  "heading_matches T =
     filter (\<lambda>i. T ! i = 10 \<and> heading_ahead (drop (Suc i) T)) [0..<length T]"

text \<open>
  The budget as the specification words it, with 0.5 and 0.6 the exact fractions and
  \<open>round_nearest p q\<close> the fraction \<open>p / q\<close> rounded to the nearest integer, halves
  upwards.
\<close>

definition round_nearest :: "int \<Rightarrow> int \<Rightarrow> int" where
  "round_nearest p q = (2 * p + q) div (2 * q)"

definition spec_max_len :: "int \<Rightarrow> int" where
  "spec_max_len word_count = min 150 (max 13 (round_nearest word_count 2))"

definition spec_min_len :: "int \<Rightarrow> int" where
  "spec_min_len max_len = max 10 (round_nearest (3 * max_len) 5)"

text \<open>Example documents.\<close>

definition scenario_a :: pystr where
  "scenario_a = py ''Chapter 1'' @ [10] @ py ''Short.''"

definition plain_doc :: pystr where
  "plain_doc = py ''Chapter 1'' @ [10] @ py ''no heading on the second line''"

definition long_section :: pystr where
  "long_section = py ''Section 2 a b c d e f g h i j k l m n o p q r s t''"

definition example_doc :: pystr where
  "example_doc = py ''Intro'' @ [10] @ long_section @ [10] @ py ''3. end''"

text \<open>
  What one iteration does with a section, read off the loop body: the calls it makes
  (none or one), and the string it stores, given the calls made so far.
\<close>

definition section_calls :: "pystr \<Rightarrow> call list" where
  "section_calls s =
     (if word_count_of (py_strip s) > 20 then [summarizer_call (py_strip s)] else [])"

definition section_value :: "capability \<Rightarrow> call list \<Rightarrow> pystr \<Rightarrow> pystr" where
  "section_value summarizer h s =
     (if word_count_of (py_strip s) > 20
      then (case summarizer h (summarizer_call (py_strip s)) of
              Inr summary_text \<Rightarrow> summary_text
            | Inl e \<Rightarrow> py ''Error: '' @ e)
      else skip_message)"

text \<open>The calls made before the loop reaches section \<open>j\<close>, and the state there.\<close>

definition calls_before :: "pystr list \<Rightarrow> nat \<Rightarrow> call list" where
  "calls_before secs j = concat (map section_calls (take j secs))"

definition state_before :: "capability \<Rightarrow> pystr \<Rightarrow> nat \<Rightarrow> run" where
  "state_before summarizer text k =
     run_sections summarizer \<lparr>summaries = [], calls = []\<rparr>
       (take k (enumerate 0 (re_split text)))"

text \<open>
  The capability that answers one call, after the calls \<open>h\<close>, with the summary
  \<open>t\<close> and is otherwise as \<open>summarizer\<close>.
\<close>

definition succeed_at :: "capability \<Rightarrow> call list \<Rightarrow> call \<Rightarrow> pystr \<Rightarrow> capability" where
  "succeed_at summarizer h c t = (\<lambda>h' c'. if h' = h \<and> c' = c then Inr t else summarizer h' c')"

definition doc3 :: pystr where
  "doc3 = py ''Section 1 a b c d e f g h i j k l m n o p q r s t'' @ [10] @ long_section
     @ [10] @ py ''Section 3 a b c d e f g h i j k l m n o p q r s t''"

text \<open>Example capabilities; the second raises on its second call.\<close>

definition always_ok :: capability where
  "always_ok h c = Inr (py ''ok'')"

definition fails_on_second :: capability where
  "fails_on_second h c = (if length h = 1 then Inl (py ''boom'') else Inr (py ''ok''))"

text \<open>A watch link with a second query parameter.\<close>

definition timed_url :: pystr where
  "timed_url = py ''https://www.youtube.com/watch?v=dQw4w9WgXcQ&t=10s''"

section \<open>Properties of the splitter\<close>

lemma re_split_from_nonempty: "re_split_from cur s \<noteq> []"
  by (induction s arbitrary: cur) auto

lemma py_join_Cons: "r \<noteq> [] \<Longrightarrow> py_join sep (x # r) = x @ sep @ py_join sep r"
  by (cases r) auto

lemma join_re_split_from: "py_join [10] (re_split_from cur s) = cur @ s"
  by (induction s arbitrary: cur) (auto simp: py_join_Cons re_split_from_nonempty)

lemma no_match_single:
  "\<forall>i<length s. \<not> (s ! i = 10 \<and> heading_ahead (drop (Suc i) s)) \<Longrightarrow>
     re_split_from cur s = [cur @ s]"
proof (induction s arbitrary: cur)
  case Nil
  then show ?case by simp
next
  case (Cons c s)
  from Cons.prems have here: "\<not> (c = 10 \<and> heading_ahead s)"
    by (auto dest: spec [of _ 0])
  have "\<forall>i<length s. \<not> (s ! i = 10 \<and> heading_ahead (drop (Suc i) s))"
  proof (intro allI impI)
    fix i assume "i < length s"
    with Cons.prems
    have "\<not> ((c # s) ! Suc i = 10 \<and> heading_ahead (drop (Suc (Suc i)) (c # s)))"
      by (metis Suc_less_eq length_Cons)
    then show "\<not> (s ! i = 10 \<and> heading_ahead (drop (Suc i) s))" by simp
  qed
  then have "re_split_from (cur @ [c]) s = [(cur @ [c]) @ s]" by (rule Cons.IH)
  with here show ?case by auto
qed

text \<open>
  C3: joining the sections with one newline at each split boundary gives back the text:
  the sections are consecutive pieces of the text, in order, and the split removes
  nothing but the matched newlines.
\<close>

theorem split_reconstructs: "py_join [10] (re_split T) = T"
  by (simp add: re_split_def join_re_split_from)

theorem split_reconstructs_witness:
  "re_split example_doc = [py ''Intro'', long_section, py ''3. end''] \<and>
   py_join [10] (re_split example_doc) = example_doc"
proof -
  have "re_split example_doc = [py ''Intro'', long_section, py ''3. end'']"
    by code_simp
  then show ?thesis
    using split_reconstructs [of example_doc] by (rule conjI)
qed

text \<open>
  C8: a text in which the pattern has no match (no newline is followed by a heading) is
  returned as one section, the text itself.
\<close>

theorem no_heading_single_section: "heading_matches T = [] \<Longrightarrow> re_split T = [T]"
proof -
  assume "heading_matches T = []"
  then have "\<forall>i<length T. \<not> (T ! i = 10 \<and> heading_ahead (drop (Suc i) T))"
    by (auto simp: heading_matches_def filter_empty_conv)
  then have "re_split_from [] T = [[] @ T]" by (rule no_match_single)
  then show ?thesis by (simp add: re_split_def)
qed

theorem no_heading_single_section_witness:
  "heading_matches plain_doc = [] \<and> re_split plain_doc = [plain_doc]"
proof -
  have h: "heading_matches plain_doc = []" by code_simp
  from h no_heading_single_section [OF h] show ?thesis by (rule conjI)
qed

text \<open>
  C6, as the code has it: in \<open>"Chapter 1\nShort."\<close> the heading stands at the start of
  the text, with no newline before it, so the pattern has no match and the text is one
  section. It has three words, gets the skip message under the label \<open>Section 1\<close>, and
  the capability is not called.
\<close>

theorem scenario_a_skipped:
  "re_split scenario_a = [scenario_a] \<and>
   py_split (py_strip scenario_a) = [py ''Chapter'', py ''1'', py ''Short.''] \<and>
   summarize_by_sections S scenario_a =
     \<lparr>summaries = [(py ''Section 1'', py ''Section too short to summarize.'')], calls = []\<rparr>"
  by code_simp

text \<open>
  Read with a split boundary before the heading (two sections) and a two-word section,
  the scenario fails: there is no match, one section, three words.
\<close>

theorem scenario_a_no_boundary:
  "heading_matches scenario_a = [] \<and> length (re_split scenario_a) = 1 \<and>
   length (re_split scenario_a) \<noteq> 2 \<and>
   word_count_of (py_strip scenario_a) = 3 \<and> word_count_of (py_strip scenario_a) \<noteq> 2"
  by code_simp

text \<open>
  C10: the empty text is one empty section; it gets the skip message under the label
  \<open>Section 1\<close> and the capability is not called.
\<close>

theorem empty_document:
  "summarize_by_sections S [] =
     \<lparr>summaries = [(py ''Section 1'', py ''Section too short to summarize.'')], calls = []\<rparr>"
  by code_simp

section \<open>Properties of the length budget\<close>

lemma bit_length_lower: "0 < n \<Longrightarrow> 2 ^ (bit_length n - 1) \<le> n"
proof (induction n rule: bit_length.induct)
  case (1 n)
  show ?case
  proof (cases "n div 2 = 0")
    case True
    with 1 show ?thesis by (simp add: bit_length.simps [of n] bit_length.simps [of 0])
  next
    case False
    with 1 have pos: "0 < n div 2" by linarith
    with 1 have ih: "2 ^ (bit_length (n div 2) - 1) \<le> n div 2" by simp
    from pos have "0 < bit_length (n div 2)" by (simp add: bit_length.simps [of "n div 2"])
    then have "(2::int) ^ bit_length (n div 2) = 2 * 2 ^ (bit_length (n div 2) - 1)"
      by (cases "bit_length (n div 2)") auto
    with ih 1 show ?thesis by (simp add: bit_length.simps [of n])
  qed
qed

lemma round_half_even_ge: "n div 2 ^ k \<le> round_half_even n k"
  by (simp add: round_half_even_def Let_def)

lemma round_half_even_0: "round_half_even n 0 = n"
  by (simp add: round_half_even_def Let_def)

lemma le_of_mult_power: "a * 2 ^ k \<le> n \<Longrightarrow> 0 \<le> a \<Longrightarrow> a \<le> (n::int)"
proof -
  assume le: "a * 2 ^ k \<le> n" and a: "0 \<le> a"
  have "(1::int) \<le> 2 ^ k" by simp
  then have "a * 1 \<le> a * 2 ^ k" using a by (rule mult_left_mono)
  then have "a \<le> a * 2 ^ k" by (simp only: mult_1_right)
  then show ?thesis using le by (rule order_trans)
qed

lemma le_mult_power: "0 \<le> a \<Longrightarrow> a \<le> a * (2::int) ^ k"
  by (rule le_of_mult_power [of a k]) simp_all

lemma bit_length_large:
  assumes "53 < bit_length m"
  shows "2 ^ 52 * 2 ^ (bit_length m - 53) \<le> m"
proof -
  define k where "k = bit_length m - 53"
  from assms have bl: "bit_length m - 1 = 52 + k" by (simp add: k_def)
  from assms have "0 < m" by (cases "m \<le> 0") (auto simp: bit_length.simps [of m])
  then have "2 ^ (52 + k) \<le> m" using bit_length_lower [of m] bl by simp
  then have "(2::int) ^ 52 * 2 ^ k \<le> m" by (simp add: power_add)
  then show ?thesis by (simp only: k_def)
qed

lemma normal_ge: "min m (2 ^ 52) \<le> round_half_even m (bit_length m - 53)"
proof (cases "bit_length m \<le> 53")
  case True
  then show ?thesis by (simp add: round_half_even_0)
next
  case False
  define k where "k = bit_length m - 53"
  from False have "(2::int) ^ 52 * 2 ^ k \<le> m"
    using bit_length_large [of m] by (simp add: k_def)
  then have "(2::int) ^ 52 * 2 ^ k div 2 ^ k \<le> m div 2 ^ k"
    by (intro zdiv_mono1) auto
  then have "(2::int) ^ 52 \<le> m div 2 ^ k" by simp
  with round_half_even_ge [of m k] show ?thesis by (simp add: k_def)
qed

lemma int_of_float_half:
  assumes "bit_length n \<le> 53"
  shows "int_of_float (fl_mul (float_of_int n) half) = n div 2"
proof -
  from assms have k: "bit_length n - 53 = 0" by simp
  have "float_of_int n = Fl n 0"
    by (simp add: float_of_int_def fl_round_def k round_half_even_0)
  moreover have "fl_mul (Fl n 0) half = Fl n (- 1)"
    by (simp add: half_def fl_round_def k round_half_even_0)
  ultimately show ?thesis by simp
qed

lemma int_of_float_half_large:
  assumes "53 < bit_length n"
  shows "2 ^ 52 \<le> int_of_float (fl_mul (float_of_int n) half)"
proof -
  define k where "k = bit_length n - 53"
  define m where "m = round_half_even n k"
  define k' where "k' = bit_length m - 53"
  define m' where "m' = round_half_even m k'"
  from assms have k: "0 < k" by (simp add: k_def)
  from assms have "(2::int) ^ 52 * 2 ^ (bit_length n - 53) \<le> n"
    by (rule bit_length_large)
  then have n: "2 ^ 52 \<le> n" by (rule le_of_mult_power) simp
  have "2 ^ 52 \<le> m"
    using normal_ge [of n] n by (simp add: m_def k_def)
  then have m': "2 ^ 52 \<le> m'"
    using normal_ge [of m] by (simp add: m'_def k'_def)
  have eq: "fl_mul (float_of_int n) half = Fl m' (int k - 1 + int k')"
    by (simp add: float_of_int_def fl_round_def half_def Let_def k_def m_def k'_def m'_def)
  from k have e: "0 \<le> int k - 1 + int k'" by simp
  from m' have "0 \<le> m'" by simp
  then have "m' \<le> m' * 2 ^ nat (int k - 1 + int k')" by (rule le_mult_power)
  with m' have "2 ^ 52 \<le> m' * 2 ^ nat (int k - 1 + int k')" by (rule order_trans)
  with e show ?thesis by (simp only: eq int_of_float.simps if_True)
qed

lemma max_len_of_floor: "max_len_of word_count = min 150 (max 13 (word_count div 2))"
proof (cases "bit_length word_count \<le> 53")
  case True
  then show ?thesis by (simp add: max_len_of_def int_of_float_half)
next
  case False
  then have big: "53 < bit_length word_count" by simp
  then have "2 ^ 52 \<le> int_of_float (fl_mul (float_of_int word_count) half)"
    by (rule int_of_float_half_large)
  then have l: "max_len_of word_count = 150" by (simp add: max_len_of_def)
  from big have "(2::int) ^ 52 * 2 ^ (bit_length word_count - 53) \<le> word_count"
    by (rule bit_length_large)
  then have "2 ^ 52 \<le> word_count" by (rule le_of_mult_power) simp
  then have "150 \<le> word_count div 2" by simp
  with l show ?thesis by simp
qed

lemma six_tenths_table:
  "list_all (\<lambda>m. int_of_float (fl_mul (float_of_int m) six_tenths) = 3 * m div 5)
     (map int [13..<151])"
  by code_simp

lemma int_of_float_six_tenths:
  assumes "13 \<le> m" "m \<le> 150"
  shows "int_of_float (fl_mul (float_of_int m) six_tenths) = 3 * m div 5"
proof -
  from assms have "13 \<le> nat m \<and> nat m < 151" by linarith
  then have "nat m \<in> set [13..<151]" by (simp only: set_upt atLeastLessThan_iff)
  then have "int (nat m) \<in> int ` set [13..<151]" by (rule imageI)
  moreover from assms have "int (nat m) = m" by simp
  ultimately have mem: "m \<in> set (map int [13..<151])" by (simp only: set_map)
  from six_tenths_table
  have "\<forall>m\<in>set (map int [13..<151]).
          int_of_float (fl_mul (float_of_int m) six_tenths) = 3 * m div 5"
    by (simp only: list_all_iff)
  then show ?thesis using mem by (rule bspec)
qed

lemma max_len_of_range: "13 \<le> max_len_of w \<and> max_len_of w \<le> 150"
  by (simp add: max_len_of_def)

lemma min_len_of_floor:
  "13 \<le> max_len \<Longrightarrow> max_len \<le> 150 \<Longrightarrow> min_len_of max_len = max 10 (3 * max_len div 5)"
  by (simp add: min_len_of_def int_of_float_six_tenths)

text \<open>
  C2, as the code has it: \<open>int(...)\<close> truncates, it does not round. For a section of
  more than 20 words, \<open>max_len\<close> is half the word count rounded down, kept between 13
  and 150, and \<open>min_len\<close> is six tenths of \<open>max_len\<close> rounded down, but at least 10.
  The floating-point products give exactly these integers.
\<close>

theorem budget_truncates:
  "20 < word_count \<Longrightarrow>
     max_len_of word_count = min 150 (max 13 (word_count div 2)) \<and>
     min_len_of (max_len_of word_count) = max 10 (3 * max_len_of word_count div 5)"
  using max_len_of_range [of word_count]
  by (simp add: max_len_of_floor [symmetric] min_len_of_floor)

theorem budget_truncates_witness:
  "(20::int) < 36 \<and> max_len_of 36 = 18 \<and> min_len_of (max_len_of 36) = 10"
proof -
  have h: "(20::int) < 36" by simp
  note t = budget_truncates [OF h]
  from t [THEN conjunct1] have a: "max_len_of 36 = 18" by simp
  from t [THEN conjunct2] have "min_len_of (max_len_of 36) = 10" unfolding a by simp
  with h a show ?thesis by simp
qed

text \<open>
  With rounding to the nearest integer, 27 words would give \<open>max_len = 14\<close> and
  \<open>max_len = 18\<close> would give \<open>min_len = 11\<close>; the code computes 13 and 10.
\<close>

theorem budget_not_rounded:
  "max_len_of 27 = 13 \<and> spec_max_len 27 = 14 \<and> max_len_of 27 \<noteq> spec_max_len 27 \<and>
   max_len_of 36 = 18 \<and> min_len_of 18 = 10 \<and> spec_min_len 18 = 11 \<and>
   min_len_of 18 \<noteq> spec_min_len 18"
  by code_simp

section \<open>Properties of the adjusted lengths\<close>

lemma split_from_nonempty:
  "cur \<noteq> [] \<or> (\<exists>c\<in>set s. \<not> isspace c) \<Longrightarrow> split_from cur s \<noteq> []"
  by (induction s arbitrary: cur) auto

lemma split_from_all_space: "\<forall>c\<in>set s. isspace c \<Longrightarrow> split_from [] s = []"
  by (induction s) auto

lemma dropWhile_snoc_keep: "\<not> P x \<Longrightarrow> \<exists>ys. dropWhile P (zs @ [x]) = ys @ [x]"
  by (induction zs) auto

lemma hd_py_strip:
  assumes "py_strip s \<noteq> []"
  shows "\<not> isspace (hd (py_strip s))"
proof -
  define t where "t = dropWhile isspace s"
  have "py_strip s = rev (dropWhile isspace (rev t))" by (simp only: py_strip_def t_def)
  with assms have "t \<noteq> []" by auto
  then obtain x xs where t: "t = x # xs" by (cases t) auto
  have "\<not> isspace (hd (dropWhile isspace s))"
    using \<open>t \<noteq> []\<close> unfolding t_def by (rule hd_dropWhile)
  with t have x: "\<not> isspace x" by (simp add: t_def)
  then have "\<exists>ys. dropWhile isspace (rev xs @ [x]) = ys @ [x]"
    by (rule dropWhile_snoc_keep)
  then obtain ys where "dropWhile isspace (rev xs @ [x]) = ys @ [x]" ..
  then have "py_strip s = x # rev ys"
    using t by (simp add: py_strip_def t_def [symmetric])
  with x show ?thesis by simp
qed

lemma short_text_has_token:
  assumes "20 < word_count_of (py_strip s)"
  shows "1 \<le> int (length (py_split (short_text_of (py_strip s))))"
proof -
  define sec where "sec = py_strip s"
  from assms have "split_from [] sec \<noteq> []"
    by (auto simp: word_count_of_def py_split_def sec_def)
  then have "\<not> (\<forall>c\<in>set sec. isspace c)" using split_from_all_space by blast
  then have ne: "sec \<noteq> []" by auto
  then have "\<not> isspace (hd sec)" unfolding sec_def by (rule hd_py_strip)
  moreover from ne have "hd sec \<in> set (take 1000 sec)" by (cases sec) auto
  ultimately have "split_from [] (take 1000 sec) \<noteq> []"
    by (intro split_from_nonempty) blast
  then have "0 < length (py_split (short_text_of sec))"
    by (simp add: py_split_def short_text_of_def)
  then show ?thesis unfolding sec_def by linarith
qed

lemma min_len_of_ge: "10 \<le> min_len_of m"
  by (simp add: min_len_of_def)

lemma adjusted_arith:
  assumes "1 \<le> tc" "13 \<le> ml" "ml \<le> 150" "10 \<le> mn"
  shows "1 \<le> adjusted_min_of mn (min ml tc) \<and>
         (if min ml tc = 1 then adjusted_min_of mn (min ml tc) = 1
          else adjusted_min_of mn (min ml tc) < min ml tc) \<and>
         min ml tc \<le> min 150 tc"
proof -
  define a where "a = min ml tc"
  from assms have a: "1 \<le> a" "a \<le> 150" "a \<le> tc" by (simp_all add: a_def)
  have "1 \<le> adjusted_min_of mn a \<and>
        (if a = 1 then adjusted_min_of mn a = 1 else adjusted_min_of mn a < a)"
  proof (cases "1 < a")
    case True
    then have "adjusted_min_of mn a = min mn (a - 1)" by (simp add: adjusted_min_of_def)
    moreover from True assms(4) have "1 \<le> min mn (a - 1)" by simp
    moreover from True have "min mn (a - 1) < a" by simp
    moreover from True have "a \<noteq> 1" by simp
    ultimately show ?thesis by simp
  next
    case False
    with a have "a = 1" by simp
    then show ?thesis by (simp add: adjusted_min_of_def)
  qed
  moreover from a have "a \<le> min 150 tc" by simp
  ultimately show ?thesis unfolding a_def by blast
qed

text \<open>
  C1: for a section whose stripped text has more than 20 words, the call carries the
  first 1000 characters of the stripped text, and its \<open>max_length\<close> and
  \<open>min_length\<close> (the values \<open>adjusted_max\<close> and \<open>adjusted_min\<close>) satisfy
  \<open>1 \<le> adjusted_min < adjusted_max \<le> min(150, tokens of the short text)\<close>, except
  that \<open>adjusted_min = 1\<close> when \<open>adjusted_max = 1\<close>.
\<close>

theorem adjusted_bounds:
  assumes "20 < word_count_of (py_strip s)"
  shows "call_text (summarizer_call (py_strip s)) = take 1000 (py_strip s) \<and>
         1 \<le> min_length (summarizer_call (py_strip s)) \<and>
         (if max_length (summarizer_call (py_strip s)) = 1
          then min_length (summarizer_call (py_strip s)) = 1
          else min_length (summarizer_call (py_strip s))
                 < max_length (summarizer_call (py_strip s))) \<and>
         max_length (summarizer_call (py_strip s))
           \<le> min 150 (int (length (py_split (call_text (summarizer_call (py_strip s))))))"
proof -
  define sec where "sec = py_strip s"
  define tc where "tc = int (length (py_split (take 1000 sec)))"
  define ml where "ml = max_len_of (word_count_of sec)"
  define mn where "mn = min_len_of ml"
  have tc: "1 \<le> tc"
    using short_text_has_token [OF assms] by (simp add: tc_def sec_def short_text_of_def)
  have ml: "13 \<le> ml \<and> ml \<le> 150" by (simp add: ml_def max_len_of_range)
  have mn: "10 \<le> mn" by (simp add: mn_def min_len_of_ge)
  have c1: "call_text (summarizer_call sec) = take 1000 sec"
    by (simp add: summarizer_call_def Let_def short_text_of_def)
  have c2: "max_length (summarizer_call sec) = min ml tc"
    by (simp add: summarizer_call_def Let_def short_text_of_def adjusted_max_of_def
        ml_def tc_def)
  have c3: "min_length (summarizer_call sec) = adjusted_min_of mn (min ml tc)"
    by (simp add: summarizer_call_def Let_def short_text_of_def adjusted_max_of_def
        ml_def mn_def tc_def)
  have r: "1 \<le> adjusted_min_of mn (min ml tc) \<and>
        (if min ml tc = 1 then adjusted_min_of mn (min ml tc) = 1
         else adjusted_min_of mn (min ml tc) < min ml tc) \<and>
        min ml tc \<le> min 150 tc"
    using tc ml mn by (intro adjusted_arith) simp_all
  show ?thesis
    unfolding sec_def [symmetric] c1 c2 c3 tc_def [symmetric] by (rule conjI [OF refl r])
qed

theorem adjusted_bounds_witness:
  "20 < word_count_of (py_strip long_section) \<and>
   max_length (summarizer_call (py_strip long_section)) = 13 \<and>
   min_length (summarizer_call (py_strip long_section)) = 10 \<and>
   1 \<le> min_length (summarizer_call (py_strip long_section)) \<and>
   max_length (summarizer_call (py_strip long_section))
     \<le> min 150 (int (length (py_split (call_text (summarizer_call (py_strip long_section))))))"
proof -
  have h: "20 < word_count_of (py_strip long_section)" by code_simp
  have v: "max_length (summarizer_call (py_strip long_section)) = 13 \<and>
           min_length (summarizer_call (py_strip long_section)) = 10" by code_simp
  from adjusted_bounds [OF h] h v show ?thesis by blast
qed

section \<open>Properties of the loop\<close>

lemma decimal_nonempty: "decimal n \<noteq> []"
  by (subst decimal.simps) simp

lemma decimal_inj: "decimal m = decimal n \<Longrightarrow> m = n"
proof (induction m arbitrary: n rule: decimal.induct)
  case (1 m)
  show ?case
  proof (cases "m < 10")
    case True
    show ?thesis
    proof (cases "n < 10")
      case True
      with \<open>m < 10\<close> 1(2) show ?thesis
        by (simp add: decimal.simps [of m] decimal.simps [of n])
    next
      case False
      with \<open>m < 10\<close> 1(2) have "[48 + int m] = decimal (n div 10) @ [48 + int (n mod 10)]"
        by (simp add: decimal.simps [of m] decimal.simps [of n])
      then have "decimal (n div 10) = []" by (simp add: Cons_eq_append_conv)
      with decimal_nonempty show ?thesis by blast
    qed
  next
    case False
    show ?thesis
    proof (cases "n < 10")
      case True
      with False 1(2) have "decimal (m div 10) @ [48 + int (m mod 10)] = [48 + int n]"
        by (simp add: decimal.simps [of m] decimal.simps [of n])
      then have "decimal (m div 10) = []" by (simp add: append_eq_Cons_conv)
      with decimal_nonempty show ?thesis by blast
    next
      case n: False
      with False 1(2)
      have "decimal (m div 10) @ [48 + int (m mod 10)]
              = decimal (n div 10) @ [48 + int (n mod 10)]"
        by (simp add: decimal.simps [of m] decimal.simps [of n])
      then have d: "decimal (m div 10) = decimal (n div 10)" and r: "m mod 10 = n mod 10"
        by simp_all
      from False d have "m div 10 = n div 10" by (rule 1(1))
      with r show ?thesis by (metis div_mult_mod_eq)
    qed
  qed
qed

lemma label_inj: "label i = label j \<Longrightarrow> i = j"
  by (auto simp: label_def dest: decimal_inj)

lemma update_fresh: "k \<notin> fst ` set al \<Longrightarrow> AList.update k v al = al @ [(k, v)]"
  by (induction al) auto

lemma loop_body_summaries:
  "summaries (loop_body S st (i, s)) =
     AList.update (label i) (section_value S (calls st) s) (summaries st)"
  by (simp add: loop_body_def section_value_def Let_def split: sum.split)

lemma loop_body_calls: "calls (loop_body S st (i, s)) = calls st @ section_calls s"
  by (simp add: loop_body_def section_calls_def Let_def split: sum.split)

lemma run_sections_Nil: "run_sections S st [] = st"
  by (simp add: run_sections_def)

lemma run_sections_Cons:
  "run_sections S st (p # ps) = run_sections S (loop_body S st p) ps"
  by (simp add: run_sections_def)

lemma run_calls:
  "calls (run_sections S st (enumerate m secs)) = calls st @ concat (map section_calls secs)"
proof (induction secs arbitrary: m st)
  case Nil
  show ?case by (simp add: run_sections_Nil)
next
  case (Cons x xs)
  show ?case
    by (simp add: run_sections_Cons Cons.IH loop_body_calls)
qed

lemma run_summaries:
  assumes "\<forall>j\<ge>m. label j \<notin> fst ` set (summaries st)"
  shows "summaries (run_sections S st (enumerate m secs)) =
           summaries st @
           map (\<lambda>j. (label (m + j),
                      section_value S (calls st @ calls_before secs j) (secs ! j)))
             [0..<length secs]"
  using assms
proof (induction secs arbitrary: m st)
  case Nil
  show ?case by (simp add: run_sections_Nil)
next
  case (Cons x xs)
  define st' where "st' = loop_body S st (m, x)"
  from Cons.prems have fresh: "label m \<notin> fst ` set (summaries st)" by simp
  have s': "summaries st' = summaries st @ [(label m, section_value S (calls st) x)]"
    unfolding st'_def loop_body_summaries using fresh by (rule update_fresh)
  have c': "calls st' = calls st @ section_calls x"
    by (simp add: st'_def loop_body_calls)
  have "\<forall>j\<ge>Suc m. label j \<notin> fst ` set (summaries st')"
  proof (intro allI impI)
    fix j assume j: "Suc m \<le> j"
    then have "label j \<noteq> label m" using label_inj [of j m] by auto
    moreover from j Cons.prems have "label j \<notin> fst ` set (summaries st)" by simp
    ultimately show "label j \<notin> fst ` set (summaries st')" by (auto simp: s')
  qed
  then have ih: "summaries (run_sections S st' (enumerate (Suc m) xs)) =
      summaries st' @
      map (\<lambda>j. (label (Suc m + j),
                 section_value S (calls st' @ calls_before xs j) (xs ! j)))
        [0..<length xs]"
    by (rule Cons.IH)
  have up: "[0..<length (x # xs)] = 0 # map Suc [0..<length xs]"
    by (simp add: upt_conv_Cons map_Suc_upt del: upt_Suc)
  show ?case
    unfolding up
    by (simp add: run_sections_Cons st'_def [symmetric] ih s' c' calls_before_def
        comp_def)
qed

lemma summaries_eq:
  "summaries (summarize_by_sections S T) =
     map (\<lambda>j. (label j, section_value S (calls_before (re_split T) j) (re_split T ! j)))
       [0..<length (re_split T)]"
  using run_summaries [of 0 "\<lparr>summaries = [], calls = []\<rparr>" S "re_split T"]
  by (simp add: summarize_by_sections_def)

lemma calls_eq: "calls (summarize_by_sections S T) = concat (map section_calls (re_split T))"
  using run_calls [of S "\<lparr>summaries = [], calls = []\<rparr>" 0 "re_split T"]
  by (simp add: summarize_by_sections_def)

lemma state_before_calls:
  "calls (state_before S T k) = calls_before (re_split T) k"
proof -
  have "take k (enumerate 0 (re_split T)) = enumerate 0 (take k (re_split T))"
    by (simp add: enumerate_eq_zip take_zip min_def)
  then show ?thesis
    using run_calls [of S "\<lparr>summaries = [], calls = []\<rparr>" 0 "take k (re_split T)"]
    by (simp add: state_before_def calls_before_def)
qed

lemma distinct_labels: "distinct (map label [0..<n])"
  by (auto simp: distinct_map inj_on_def dest: label_inj)

lemma summaries_length: "length (summaries (summarize_by_sections S T)) = length (re_split T)"
  by (simp add: summaries_eq)

lemma summaries_nth:
  "j < length (re_split T) \<Longrightarrow>
     summaries (summarize_by_sections S T) ! j =
       (label j, section_value S (calls_before (re_split T) j) (re_split T ! j))"
  by (simp add: summaries_eq)

lemma summaries_keys:
  "map fst (summaries (summarize_by_sections S T)) = map label [0..<length (re_split T)]"
  by (simp add: summaries_eq comp_def)

lemma calls_before_Suc:
  "j < length secs \<Longrightarrow> calls_before secs (Suc j) = calls_before secs j @ section_calls (secs ! j)"
  by (simp add: calls_before_def take_Suc_conv_app_nth)

lemma calls_before_split:
  assumes "j \<le> k"
  shows "calls_before secs k =
           calls_before secs j @ concat (map section_calls (drop j (take k secs)))"
proof -
  from assms have "take j secs = take j (take k secs)" by (simp add: min_def)
  then have "calls_before secs j @ concat (map section_calls (drop j (take k secs)))
      = concat (map section_calls (take j (take k secs) @ drop j (take k secs)))"
    by (simp add: calls_before_def)
  also have "\<dots> = calls_before secs k"
    by (simp only: append_take_drop_id calls_before_def)
  finally show ?thesis by simp
qed

lemma calls_before_grows:
  assumes "j < k" "j < length secs" "20 < word_count_of (py_strip (secs ! j))"
  shows "calls_before secs j \<noteq> calls_before secs k"
proof -
  from assms have "j < length (take k secs)" by simp
  then have "drop j (take k secs) = take k secs ! j # drop (Suc j) (take k secs)"
    by (rule Cons_nth_drop_Suc [symmetric])
  moreover from assms have "take k secs ! j = secs ! j" by simp
  ultimately have "concat (map section_calls (drop j (take k secs))) \<noteq> []"
    using assms(3) by (simp add: section_calls_def)
  moreover from assms have "calls_before secs k =
      calls_before secs j @ concat (map section_calls (drop j (take k secs)))"
    by (intro calls_before_split) simp
  ultimately show ?thesis by simp
qed

lemma section_value_succeed_at:
  assumes "j < length secs" "k < length secs" "j \<noteq> k"
    and "20 < word_count_of (py_strip (secs ! k))"
  shows "section_value (succeed_at S (calls_before secs k) c t) (calls_before secs j) (secs ! j)
           = section_value S (calls_before secs j) (secs ! j)"
proof (cases "20 < word_count_of (py_strip (secs ! j))")
  case False
  then show ?thesis by (simp add: section_value_def)
next
  case True
  have "calls_before secs j \<noteq> calls_before secs k"
  proof (cases "j < k")
    case True
    with assms \<open>20 < word_count_of (py_strip (secs ! j))\<close> show ?thesis
      by (intro calls_before_grows)
  next
    case False
    with assms have "k < j" by simp
    with assms have "calls_before secs k \<noteq> calls_before secs j"
      by (intro calls_before_grows)
    then show ?thesis by (rule not_sym)
  qed
  then show ?thesis by (simp add: section_value_def succeed_at_def)
qed

text \<open>
  C9: the keys of the returned dictionary are \<open>Section 1\<close>, ..., \<open>Section k\<close>
  for the \<open>k\<close> sections of the splitter, in document order, whatever happens to each
  section; they are pairwise different, the numbers growing by one.
\<close>

theorem labels_in_order:
  "map fst (summaries (summarize_by_sections S T)) = map label [0..<length (re_split T)] \<and>
   distinct (map fst (summaries (summarize_by_sections S T)))"
  by (simp only: summaries_keys distinct_labels simp_thms)

theorem labels_in_order_witness:
  "re_split doc3 = [py ''Section 1 a b c d e f g h i j k l m n o p q r s t'', long_section,
      py ''Section 3 a b c d e f g h i j k l m n o p q r s t''] \<and>
   map label [0..<3] = [py ''Section 1'', py ''Section 2'', py ''Section 3''] \<and>
   map fst (summaries (summarize_by_sections fails_on_second doc3)) =
     [py ''Section 1'', py ''Section 2'', py ''Section 3'']"
proof -
  have s: "re_split doc3 = [py ''Section 1 a b c d e f g h i j k l m n o p q r s t'',
      long_section, py ''Section 3 a b c d e f g h i j k l m n o p q r s t'']"
    by code_simp
  have l: "map label [0..<3] = [py ''Section 1'', py ''Section 2'', py ''Section 3'']"
    by code_simp
  from s have n: "length (re_split doc3) = 3" by simp
  from labels_in_order [of fails_on_second doc3]
  have "map fst (summaries (summarize_by_sections fails_on_second doc3)) = map label [0..<3]"
    unfolding n by (rule conjunct1)
  with s l show ?thesis by simp
qed

text \<open>
  C4: a section whose stripped text has at most 20 words gets the skip message under its
  label, and the iteration makes no call: the calls made after it are those made before.
\<close>

theorem short_section_skipped:
  assumes "k < length (re_split T)"
    and "word_count_of (py_strip (re_split T ! k)) \<le> 20"
  shows "summaries (summarize_by_sections S T) ! k =
           (label k, py ''Section too short to summarize.'') \<and>
         map_of (summaries (summarize_by_sections S T)) (label k) =
           Some (py ''Section too short to summarize.'') \<and>
         calls (state_before S T (Suc k)) = calls (state_before S T k)"
proof -
  from assms(2) have v: "section_value S (calls_before (re_split T) k) (re_split T ! k) =
      py ''Section too short to summarize.''"
    by (simp add: section_value_def skip_message_def)
  from assms(1) have n: "summaries (summarize_by_sections S T) ! k =
      (label k, py ''Section too short to summarize.'')"
    by (simp only: summaries_nth v)
  from assms(1) have "k < length (summaries (summarize_by_sections S T))"
    by (simp only: summaries_length)
  then have "summaries (summarize_by_sections S T) ! k
      \<in> set (summaries (summarize_by_sections S T))"
    by (rule nth_mem)
  with n have "(label k, py ''Section too short to summarize.'')
      \<in> set (summaries (summarize_by_sections S T))" by simp
  moreover have "distinct (map fst (summaries (summarize_by_sections S T)))"
    by (simp only: summaries_keys distinct_labels)
  ultimately have m: "map_of (summaries (summarize_by_sections S T)) (label k) =
      Some (py ''Section too short to summarize.'')"
    by (simp only: map_of_eq_Some_iff)
  from assms have c: "calls (state_before S T (Suc k)) = calls (state_before S T k)"
    by (simp add: state_before_calls calls_before_Suc section_calls_def)
  from n m c show ?thesis by (intro conjI)
qed

theorem short_section_skipped_witness:
  "(0::nat) < length (re_split example_doc) \<and>
   word_count_of (py_strip (re_split example_doc ! 0)) \<le> 20 \<and>
   summaries (summarize_by_sections always_ok example_doc) ! 0 =
     (label 0, py ''Section too short to summarize.'') \<and>
   calls (state_before always_ok example_doc (Suc 0)) = calls (state_before always_ok example_doc 0)"
proof -
  have h1: "0 < length (re_split example_doc)" by code_simp
  have h2: "word_count_of (py_strip (re_split example_doc ! 0)) \<le> 20" by code_simp
  from short_section_skipped [OF h1 h2, of always_ok] h1 h2 show ?thesis by blast
qed

text \<open>
  C5: when the capability raises on section \<open>k\<close>, the dictionary holds
  \<open>Error: \<close> followed by the description under the label of \<open>k\<close>; every other
  section holds what it would hold had that one call succeeded; and the session context
  joins the values of all sections in order, the error text and skip messages included.
\<close>

theorem failure_is_local:
  assumes "k < length (re_split T)"
    and "20 < word_count_of (py_strip (re_split T ! k))"
    and "S (calls (state_before S T k)) (summarizer_call (py_strip (re_split T ! k))) = Inl e"
  shows "summaries (summarize_by_sections S T) ! k = (label k, py ''Error: '' @ e) \<and>
         (\<forall>j<length (re_split T). j \<noteq> k \<longrightarrow>
            summaries (summarize_by_sections
              (succeed_at S (calls (state_before S T k))
                 (summarizer_call (py_strip (re_split T ! k))) t) T) ! j
            = summaries (summarize_by_sections S T) ! j) \<and>
         length (summaries (summarize_by_sections S T)) = length (re_split T) \<and>
         session_context (summaries (summarize_by_sections S T)) =
           py_join (py '' '')
             (map (\<lambda>j. snd (summaries (summarize_by_sections S T) ! j))
                [0..<length (re_split T)])"
proof -
  define r where "r = summaries (summarize_by_sections S T)"
  from assms(2,3) have "section_value S (calls_before (re_split T) k) (re_split T ! k) =
      py ''Error: '' @ e"
    by (simp add: section_value_def state_before_calls)
  with assms(1) have a: "r ! k = (label k, py ''Error: '' @ e)"
    by (simp add: r_def summaries_nth)
  have b: "\<forall>j<length (re_split T). j \<noteq> k \<longrightarrow>
      summaries (summarize_by_sections
        (succeed_at S (calls (state_before S T k))
           (summarizer_call (py_strip (re_split T ! k))) t) T) ! j = r ! j"
  proof (intro allI impI)
    fix j assume j: "j < length (re_split T)" "j \<noteq> k"
    with assms(1,2) show "summaries (summarize_by_sections
        (succeed_at S (calls (state_before S T k))
           (summarizer_call (py_strip (re_split T ! k))) t) T) ! j = r ! j"
      by (simp add: r_def summaries_nth state_before_calls section_value_succeed_at)
  qed
  have c: "length r = length (re_split T)" by (simp add: r_def summaries_length)
  have "map snd r = map snd (map (\<lambda>j. r ! j) [0..<length r])"
    by (simp only: map_nth)
  then have "map snd r = map (\<lambda>j. snd (r ! j)) [0..<length (re_split T)]"
    by (simp add: c comp_def)
  then have d: "session_context r =
      py_join (py '' '') (map (\<lambda>j. snd (r ! j)) [0..<length (re_split T)])"
    by (simp only: session_context_def)
  from a b c d show ?thesis unfolding r_def by (intro conjI)
qed

theorem failure_is_local_witness:
  "(1::nat) < length (re_split doc3) \<and>
   20 < word_count_of (py_strip (re_split doc3 ! 1)) \<and>
   summaries (summarize_by_sections fails_on_second doc3) ! 1 =
     (label 1, py ''Error: '' @ py ''boom'') \<and>
   summaries (summarize_by_sections fails_on_second doc3) =
     [(py ''Section 1'', py ''ok''), (py ''Section 2'', py ''Error: boom''),
      (py ''Section 3'', py ''ok'')] \<and>
   session_context (summaries (summarize_by_sections fails_on_second doc3)) =
     py ''ok Error: boom ok''"
proof -
  have h1: "1 < length (re_split doc3)" by code_simp
  have h2: "20 < word_count_of (py_strip (re_split doc3 ! 1))" by code_simp
  have h3: "fails_on_second (calls (state_before fails_on_second doc3 1))
      (summarizer_call (py_strip (re_split doc3 ! 1))) = Inl (py ''boom'')" by code_simp
  have v: "summaries (summarize_by_sections fails_on_second doc3) =
     [(py ''Section 1'', py ''ok''), (py ''Section 2'', py ''Error: boom''),
      (py ''Section 3'', py ''ok'')]" by code_simp
  have x: "session_context (summaries (summarize_by_sections fails_on_second doc3)) =
     py ''ok Error: boom ok''" by code_simp
  from failure_is_local [where S = fails_on_second and T = doc3 and k = 1
      and e = "py ''boom''", OF h1 h2 h3]
  have "summaries (summarize_by_sections fails_on_second doc3) ! 1 =
     (label 1, py ''Error: '' @ py ''boom'')" by (rule conjunct1)
  with h1 h2 v x show ?thesis by (intro conjI)
qed

section \<open>The video identifier\<close>

text \<open>
  C7: on a watch link whose identifier parameter is followed by another parameter, the
  adapter takes everything after \<open>v=\<close>, not the value of the parameter.
\<close>

theorem video_id_keeps_later_parameters:
  "video_id_of timed_url = py ''dQw4w9WgXcQ&t=10s'' \<and>
   video_id_of (py ''https://www.youtube.com/watch?v=dQw4w9WgXcQ'') = py ''dQw4w9WgXcQ''"
  by code_simp

end
